theory Spec2Isabelle
  imports Main
begin

section \<open>The fixed-window rate limiter\<close>

text \<open>
  \<^verbatim>\<open>const bucket = new Map<string, { count: number; resetAt: number }>();\<close>

  The numbers stored are request counts and millisecond timestamps: integers, far below
  \<open>2^53\<close>, so they are modelled as \<open>int\<close>. The process-wide map is passed in and
  returned; the value of \<^verbatim>\<open>Date.now()\<close>, read once at the start of a call, is the
  parameter \<open>now\<close>.
\<close>

record bucket_entry =
  count :: int
  resetAt :: int

type_synonym bucket_map = "string \<rightharpoonup> bucket_entry"

record rl_result =
  ok :: bool
  remaining :: int

text \<open>
  \<^verbatim>\<open>
  function rateLimitOk(key: string, limit: number, windowMs: number) {
    const now = Date.now();
    const cur = bucket.get(key);
    if (!cur || now > cur.resetAt) {
      bucket.set(key, { count: 1, resetAt: now + windowMs });
      return { ok: true, remaining: limit - 1 };
    }
    if (cur.count >= limit) return { ok: false, remaining: 0 };
    cur.count += 1;
    bucket.set(key, cur);
    return { ok: true, remaining: limit - cur.count };
  }
  \<close>
  \<open>cur\<close> is an object or \<^verbatim>\<open>undefined\<close>, so \<^verbatim>\<open>!cur\<close> holds exactly when the key
  has no entry.
\<close>

definition rateLimitOk ::
  "int \<Rightarrow> string \<Rightarrow> int \<Rightarrow> int \<Rightarrow> bucket_map \<Rightarrow> rl_result \<times> bucket_map" where
  "rateLimitOk now key limit windowMs bucket =
     (let opened = (\<lparr>ok = True, remaining = limit - 1\<rparr>,
                    bucket(key \<mapsto> \<lparr>count = 1, bucket_entry.resetAt = now + windowMs\<rparr>))
      in case bucket key of
           None \<Rightarrow> opened
         | Some cur \<Rightarrow>
             if now > bucket_entry.resetAt cur then opened
             else if count cur \<ge> limit then (\<lparr>ok = False, remaining = 0\<rparr>, bucket)
             else (\<lparr>ok = True, remaining = limit - (count cur + 1)\<rparr>,
                   bucket(key \<mapsto> cur\<lparr>count := count cur + 1\<rparr>)))"

text \<open>
  A run of calls, one after the other on the same map. A call is the instant at which it
  reads the clock and its three arguments \<open>(now, key, limit, windowMs)\<close>; the results are
  collected in call order.
\<close>

type_synonym rl_call = "int \<times> string \<times> int \<times> int"

fun rl_calls :: "rl_call list \<Rightarrow> bucket_map \<Rightarrow> rl_result list \<times> bucket_map" where
  "rl_calls [] bucket = ([], bucket)"
| "rl_calls ((now, key, limit, windowMs) # cs) bucket =
     (let (r, bucket1) = rateLimitOk now key limit windowMs bucket;
          (rs, bucket2) = rl_calls cs bucket1
      in (r # rs, bucket2))"


section \<open>The opener rotator\<close>

text \<open>\<^verbatim>\<open>type DayMode = "morning" | "afternoon" | "evening" | "bedtime";\<close>\<close>

datatype DayMode = morning | afternoon | evening | bedtime

fun mode_str :: "DayMode \<Rightarrow> string" where
  "mode_str morning = ''morning''"
| "mode_str afternoon = ''afternoon''"
| "mode_str evening = ''evening''"
| "mode_str bedtime = ''bedtime''"

text \<open>
  \<^verbatim>\<open>const OPENER_HISTORY = new Map<string, { items: string[]; resetAt: number }>();\<close>

  Reading a JavaScript array out of range gives \<^verbatim>\<open>undefined\<close>, which the function
  would store and return like any string. A value of the recency list is therefore a
  \<open>string option\<close>, \<open>None\<close> standing for \<^verbatim>\<open>undefined\<close>.
\<close>

type_synonym jsstr = "string option"

record opener_entry =
  items :: "jsstr list"
  resetAt :: int

type_synonym history_map = "string \<rightharpoonup> opener_entry"

datatype error = TypeError

text \<open>\<^verbatim>\<open>bank[d]\<close>\<close>

definition bank_at :: "string list \<Rightarrow> nat \<Rightarrow> jsstr" where
  "bank_at bank d = (if d < length bank then Some (bank ! d) else None)"

text \<open>
  \<^verbatim>\<open>xs.slice(0, e)\<close> for an integer \<open>e\<close>: a negative end counts from the end of the
  array.
\<close>

definition slice0 :: "'a list \<Rightarrow> int \<Rightarrow> 'a list" where
  "slice0 xs e = (if e < 0 then take (nat (int (length xs) + e)) xs else take (nat e) xs)"

text \<open>
  The random source. \<open>rnd k\<close> is the value of the \<open>k\<close>-th evaluation of
  \<^verbatim>\<open>Math.floor(Math.random() * bank.length)\<close>, and the state of the source is the number
  \<open>pos\<close> of draws made so far. For a non-empty bank every draw is below
  \<open>length bank\<close>; the theorems that need it assume so.

  \<^verbatim>\<open>
    for (let i = 0; i < 12; i++) {
      const candidate = bank[Math.floor(Math.random() * bank.length)];
      if (!state.items.includes(candidate)) {
        ... return candidate;
      }
    }
  \<close>
  The loop gives the accepted candidate, or \<open>None\<close> when it falls through, with the
  position of the random source after it.
\<close>

function retry_loop ::
  "nat \<Rightarrow> string list \<Rightarrow> (nat \<Rightarrow> nat) \<Rightarrow> nat \<Rightarrow> jsstr list \<Rightarrow> jsstr option \<times> nat" where
  "retry_loop i bank rnd pos its =
     (if i < 12 then
        (let candidate = bank_at bank (rnd pos)
         in if candidate \<notin> set its then (Some candidate, Suc pos)
            else retry_loop (Suc i) bank rnd (Suc pos) its)
      else (None, pos))"
  by pat_completeness auto
termination
  by (relation "measure (\<lambda>(i, bank, rnd, pos, its). 12 - i)") auto

declare retry_loop.simps [simp del]

text \<open>
  \<^verbatim>\<open>
      state.items.unshift(candidate);
      state.items = state.items.slice(0, keepLast);
      OPENER_HISTORY.set(key, state);
  \<close>
  The three lines occur twice in the source, once in the loop and once for the fallback.
\<close>

definition remember :: "history_map \<Rightarrow> string \<Rightarrow> opener_entry \<Rightarrow> jsstr \<Rightarrow> int \<Rightarrow> history_map" where
  "remember h key state x keepLast = h(key \<mapsto> state\<lparr>items := slice0 (x # items state) keepLast\<rparr>)"

text \<open>
  \<^verbatim>\<open>
  function pickNonRepeatingOpener(mode: DayMode, ip: string, bank: string[], keepLast = 20) {
    const now = Date.now();
    const key = `${ip}:${mode}`;
    const cur = OPENER_HISTORY.get(key);
    if (!cur || now > cur.resetAt) {
      OPENER_HISTORY.set(key, { items: [], resetAt: now + 24 * 60 * 60 * 1000 });
    }
    const state = OPENER_HISTORY.get(key)!;
    for (...) { ... }
    // If bank is too small, accept
    const fallback = bank[Math.floor(Math.random() * bank.length)];
    state.items.unshift(fallback);
    state.items = state.items.slice(0, keepLast);
    OPENER_HISTORY.set(key, state);
    return fallback;
  }
  \<close>
  The \<^verbatim>\<open>!\<close> after \<^verbatim>\<open>get(key)\<close> is erased by the compiler: were \<open>state\<close> undefined,
  \<^verbatim>\<open>state.items\<close> would throw a TypeError, which is the \<open>Inl\<close> branch.
\<close>

definition pickNonRepeatingOpener ::
  "DayMode \<Rightarrow> string \<Rightarrow> string list \<Rightarrow> int \<Rightarrow> int \<Rightarrow> (nat \<Rightarrow> nat) \<Rightarrow> nat \<Rightarrow> history_map
     \<Rightarrow> error + (jsstr \<times> nat \<times> history_map)" where
  "pickNonRepeatingOpener mode ip bank keepLast now rnd pos OPENER_HISTORY =
     (let key = ip @ '':'' @ mode_str mode;
          cleared = OPENER_HISTORY(key \<mapsto> \<lparr>items = [], opener_entry.resetAt = now + 24 * 60 * 60 * 1000\<rparr>);
          h = (case OPENER_HISTORY key of
                 None \<Rightarrow> cleared
               | Some cur \<Rightarrow> if now > opener_entry.resetAt cur then cleared else OPENER_HISTORY)
      in case h key of
           None \<Rightarrow> Inl TypeError
         | Some state \<Rightarrow>
             (case retry_loop 0 bank rnd pos (items state) of
                (Some candidate, pos1) \<Rightarrow>
                  Inr (candidate, pos1, remember h key state candidate keepLast)
              | (None, pos1) \<Rightarrow>
                  (let fallback = bank_at bank (rnd pos1)
                   in Inr (fallback, Suc pos1, remember h key state fallback keepLast))))"

text \<open>
  A run of calls for one \<open>(mode, ip)\<close>, bank and cap, at the given instants, threading the
  random source and the map; the returned openers are collected in call order. An
  exception ends the run, as it would end the request.
\<close>

fun pick_calls ::
  "DayMode \<Rightarrow> string \<Rightarrow> string list \<Rightarrow> int \<Rightarrow> (nat \<Rightarrow> nat) \<Rightarrow> int list \<Rightarrow> nat \<Rightarrow> history_map
     \<Rightarrow> error + (jsstr list \<times> nat \<times> history_map)" where
  "pick_calls mode ip bank keepLast rnd [] pos h = Inr ([], pos, h)"
| "pick_calls mode ip bank keepLast rnd (now # nows) pos h =
     (case pickNonRepeatingOpener mode ip bank keepLast now rnd pos h of
        Inl e \<Rightarrow> Inl e
      | Inr (x, pos1, h1) \<Rightarrow>
          (case pick_calls mode ip bank keepLast rnd nows pos1 h1 of
             Inl e \<Rightarrow> Inl e
           | Inr (xs, pos2, h2) \<Rightarrow> Inr (x # xs, pos2, h2)))"


section \<open>Properties of the rate limiter\<close>

lemma rl_calls_Cons:
  "rl_calls ((now, key, limit, windowMs) # cs) bucket =
     (fst (rateLimitOk now key limit windowMs bucket)
        # fst (rl_calls cs (snd (rateLimitOk now key limit windowMs bucket))),
      snd (rl_calls cs (snd (rateLimitOk now key limit windowMs bucket))))"
  by (simp add: split_beta)

text \<open>Inside an open window the answer depends on the stored count alone.\<close>

lemma rateLimitOk_in_window:
  assumes "bucket key = Some \<lparr>count = c, bucket_entry.resetAt = R\<rparr>" and "now \<le> R"
  shows "rateLimitOk now key L w bucket =
           (if c < L then (\<lparr>ok = True, remaining = L - (c + 1)\<rparr>,
                           bucket(key \<mapsto> \<lparr>count = c + 1, bucket_entry.resetAt = R\<rparr>))
            else (\<lparr>ok = False, remaining = 0\<rparr>, bucket))"
  using assms by (simp add: rateLimitOk_def)

text \<open>
  A run of calls for one key inside its open window, from a stored count \<open>c\<close>: the
  \<open>i\<close>-th call (from 0) is allowed exactly when \<open>c + i < L\<close>.
\<close>

lemma rl_calls_in_window:
  assumes "bucket key = Some \<lparr>count = c, bucket_entry.resetAt = R\<rparr>" and "\<forall>t \<in> set ts. t \<le> R"
  shows "fst (rl_calls (map (\<lambda>t. (t, key, L, w)) ts) bucket) =
           map (\<lambda>i. if c + int i < L then \<lparr>ok = True, remaining = L - (c + int i + 1)\<rparr>
                     else \<lparr>ok = False, remaining = 0\<rparr>) [0..<length ts]"
  using assms
proof (induction ts arbitrary: bucket c)
  case Nil
  then show ?case by simp
next
  case (Cons t ts)
  define f where "f = (\<lambda>c i. if c + int i < L then \<lparr>ok = True, remaining = L - (c + int i + 1)\<rparr>
                     else \<lparr>ok = False, remaining = 0\<rparr>)"
  have t: "t \<le> R" and ts: "\<forall>t \<in> set ts. t \<le> R" using Cons.prems(2) by simp_all
  have step: "rateLimitOk t key L w bucket =
           (if c < L then (\<lparr>ok = True, remaining = L - (c + 1)\<rparr>,
                           bucket(key \<mapsto> \<lparr>count = c + 1, bucket_entry.resetAt = R\<rparr>))
            else (\<lparr>ok = False, remaining = 0\<rparr>, bucket))"
    using Cons.prems(1) t by (rule rateLimitOk_in_window)
  have unroll: "map (f c) [0..<length (t # ts)] = f c 0 # map (\<lambda>i. f c (Suc i)) [0..<length ts]"
    by (simp add: map_upt_Suc del: upt_Suc)
  have head: "fst (rateLimitOk t key L w bucket) = f c 0"
    using step by (simp add: f_def)
  have tail: "fst (rl_calls (map (\<lambda>t. (t, key, L, w)) ts) (snd (rateLimitOk t key L w bucket)))
                = map (\<lambda>i. f c (Suc i)) [0..<length ts]"
  proof (cases "c < L")
    case True
    let ?b = "bucket(key \<mapsto> \<lparr>count = c + 1, bucket_entry.resetAt = R\<rparr>)"
    have b: "?b key = Some \<lparr>count = c + 1, bucket_entry.resetAt = R\<rparr>" by simp
    have "fst (rl_calls (map (\<lambda>t. (t, key, L, w)) ts) ?b) = map (f (c + 1)) [0..<length ts]"
      unfolding f_def using b ts by (rule Cons.IH)
    moreover have "f (c + 1) = (\<lambda>i. f c (Suc i))"
      by (rule ext) (simp add: f_def add.assoc add.commute)
    ultimately show ?thesis using True step by simp
  next
    case False
    have "fst (rl_calls (map (\<lambda>t. (t, key, L, w)) ts) bucket) = map (f c) [0..<length ts]"
      unfolding f_def using Cons.prems(1) ts by (rule Cons.IH)
    moreover have "f c i = f c (Suc i)" for i
      using False by (simp add: f_def)
    ultimately show ?thesis using False step by simp
  qed
  have "fst (rl_calls (map (\<lambda>t. (t, key, L, w)) (t # ts)) bucket) = map (f c) [0..<length (t # ts)]"
    unfolding unroll using head tail by (simp add: rl_calls_Cons del: rl_calls.simps)
  then show ?case by (simp only: f_def)
qed

text \<open>
  C1. A run of calls for one key with a fixed limit \<open>L > 0\<close>, the first of which opens the
  window (the key has no entry, or its entry has expired at \<open>t0\<close>) and the others of which
  come no later than the \<open>resetAt = t0 + w\<close> then stored: call number \<open>i\<close> (from 0) is
  allowed with \<open>remaining = L - 1 - i\<close> while \<open>i < L\<close>, so the first \<open>L\<close> calls count
  down \<open>L - 1, ..., 0\<close>, and every later call is denied with \<open>remaining = 0\<close>. The window
  length \<open>w\<close> needs no sign condition. The witness is the scenario of the specification:
  limit 3, window of 10 minutes, four calls at one instant.
\<close>

theorem rateLimitOk_window_sequence:
  assumes "0 < L"
    and "bucket key = None \<or> (\<exists>cur. bucket key = Some cur \<and> t0 > bucket_entry.resetAt cur)"
    and "\<forall>t \<in> set ts. t \<le> t0 + w"
  shows "fst (rl_calls (map (\<lambda>t. (t, key, L, w)) (t0 # ts)) bucket) =
           map (\<lambda>i. if int i < L then \<lparr>ok = True, remaining = L - 1 - int i\<rparr>
                     else \<lparr>ok = False, remaining = 0\<rparr>) [0..<Suc (length ts)]"
proof -
  let ?b = "bucket(key \<mapsto> \<lparr>count = 1, bucket_entry.resetAt = t0 + w\<rparr>)"
  define g where "g = (\<lambda>i. if int i < L then \<lparr>ok = True, remaining = L - 1 - int i\<rparr>
                     else \<lparr>ok = False, remaining = 0\<rparr>)"
  have first: "rateLimitOk t0 key L w bucket = (\<lparr>ok = True, remaining = L - 1\<rparr>, ?b)"
    using assms(2) by (auto simp add: rateLimitOk_def)
  have b: "?b key = Some \<lparr>count = 1, bucket_entry.resetAt = t0 + w\<rparr>" by simp
  have "fst (rl_calls (map (\<lambda>t. (t, key, L, w)) ts) ?b) =
           map (\<lambda>i. if 1 + int i < L then \<lparr>ok = True, remaining = L - (1 + int i + 1)\<rparr>
                     else \<lparr>ok = False, remaining = 0\<rparr>) [0..<length ts]"
    using b assms(3) by (rule rl_calls_in_window)
  moreover have "(\<lambda>i. if 1 + int i < L then \<lparr>ok = True, remaining = L - (1 + int i + 1)\<rparr>
                     else \<lparr>ok = False, remaining = 0\<rparr>) = (\<lambda>i. g (Suc i))"
    by (rule ext) (simp add: g_def algebra_simps)
  ultimately have tail:
    "fst (rl_calls (map (\<lambda>t. (t, key, L, w)) ts) ?b) = map (\<lambda>i. g (Suc i)) [0..<length ts]"
    by simp
  have head: "fst (rateLimitOk t0 key L w bucket) = g 0"
    using first assms(1) by (simp add: g_def)
  have "map g [0..<Suc (length ts)] = g 0 # map (\<lambda>i. g (Suc i)) [0..<length ts]"
    by (simp add: map_upt_Suc del: upt_Suc)
  then have "fst (rl_calls (map (\<lambda>t. (t, key, L, w)) (t0 # ts)) bucket) = map g [0..<Suc (length ts)]"
    using head tail first by (simp add: rl_calls_Cons del: rl_calls.simps)
  then show ?thesis by (simp only: g_def)
qed

theorem rateLimitOk_window_sequence_witness:
  "(0::int) < 3
   \<and> (Map.empty :: bucket_map) ''10.0.0.1'' = None
   \<and> (1000::int) \<le> 1000 + 600000
   \<and> fst (rl_calls (map (\<lambda>t. (t, ''10.0.0.1'', 3, 600000)) [1000, 1000, 1000, 1000]) Map.empty) =
       [\<lparr>ok = True, remaining = 2\<rparr>, \<lparr>ok = True, remaining = 1\<rparr>,
        \<lparr>ok = True, remaining = 0\<rparr>, \<lparr>ok = False, remaining = 0\<rparr>]"
  using rateLimitOk_window_sequence [of 3 Map.empty "''10.0.0.1''" 1000 "[1000, 1000, 1000]" 600000]
  by (simp add: upt_rec)

text \<open>
  C4. A call for a key whose entry is unexpired (\<open>now\<close> does not exceed its \<open>resetAt\<close>) and
  has \<open>count \<ge> limit\<close> is denied with \<open>remaining = 0\<close>, and the map it leaves is the map
  it found: no entry of any key is changed.
\<close>

theorem rateLimitOk_denied_unchanged:
  assumes "bucket key = Some cur" and "\<not> now > bucket_entry.resetAt cur" and "count cur \<ge> limit"
  shows "rateLimitOk now key limit windowMs bucket = (\<lparr>ok = False, remaining = 0\<rparr>, bucket)"
  using assms by (simp add: rateLimitOk_def)

theorem rateLimitOk_denied_unchanged_witness:
  "[''10.0.0.1'' \<mapsto> \<lparr>count = 30, bucket_entry.resetAt = 600000\<rparr>] ''10.0.0.1''
      = Some \<lparr>count = 30, bucket_entry.resetAt = 600000\<rparr>
   \<and> \<not> (600000::int) > bucket_entry.resetAt \<lparr>count = 30, bucket_entry.resetAt = 600000\<rparr>
   \<and> count \<lparr>count = 30, bucket_entry.resetAt = 600000\<rparr> \<ge> (30::int)
   \<and> rateLimitOk 600000 ''10.0.0.1'' 30 600000
        [''10.0.0.1'' \<mapsto> \<lparr>count = 30, bucket_entry.resetAt = 600000\<rparr>]
      = (\<lparr>ok = False, remaining = 0\<rparr>,
         [''10.0.0.1'' \<mapsto> \<lparr>count = 30, bucket_entry.resetAt = 600000\<rparr>])"
  using rateLimitOk_denied_unchanged
    [of "[''10.0.0.1'' \<mapsto> \<lparr>count = 30, bucket_entry.resetAt = 600000\<rparr>]"
      "''10.0.0.1''" "\<lparr>count = 30, bucket_entry.resetAt = 600000\<rparr>" 600000 30 600000]
  by simp

text \<open>
  C5. When the key has no entry, or \<open>now\<close> strictly exceeds the stored \<open>resetAt\<close>, the call
  stores \<open>count = 1\<close> and \<open>resetAt = now + windowMs\<close> for the key and returns allowed with
  \<open>remaining = limit - 1\<close>; answer and resulting map are those of the same call on the map
  from which the key has been removed, that is, of the first call ever for that key.
\<close>

theorem rateLimitOk_window_opens:
  assumes "bucket key = None \<or> (\<exists>cur. bucket key = Some cur \<and> now > bucket_entry.resetAt cur)"
  shows "rateLimitOk now key limit windowMs bucket
           = (\<lparr>ok = True, remaining = limit - 1\<rparr>,
              bucket(key \<mapsto> \<lparr>count = 1, bucket_entry.resetAt = now + windowMs\<rparr>))
         \<and> rateLimitOk now key limit windowMs bucket
           = rateLimitOk now key limit windowMs (bucket(key := None))"
  using assms by (auto simp add: rateLimitOk_def)

theorem rateLimitOk_window_opens_witness:
  "(\<exists>cur. [''10.0.0.1'' \<mapsto> \<lparr>count = 30, bucket_entry.resetAt = 600000\<rparr>] ''10.0.0.1'' = Some cur
          \<and> (600001::int) > bucket_entry.resetAt cur)
   \<and> rateLimitOk 600001 ''10.0.0.1'' 30 600000
        [''10.0.0.1'' \<mapsto> \<lparr>count = 30, bucket_entry.resetAt = 600000\<rparr>]
      = (\<lparr>ok = True, remaining = 29\<rparr>,
         [''10.0.0.1'' \<mapsto> \<lparr>count = 1, bucket_entry.resetAt = 1200001\<rparr>])
   \<and> rateLimitOk 600001 ''10.0.0.1'' 30 600000 Map.empty
      = (\<lparr>ok = True, remaining = 29\<rparr>,
         [''10.0.0.1'' \<mapsto> \<lparr>count = 1, bucket_entry.resetAt = 1200001\<rparr>])"
  using rateLimitOk_window_opens
    [of "[''10.0.0.1'' \<mapsto> \<lparr>count = 30, bucket_entry.resetAt = 600000\<rparr>]"
      "''10.0.0.1''" 600001 30 600000]
  by auto

lemma rateLimitOk_frame:
  "k' \<noteq> key \<Longrightarrow> snd (rateLimitOk now key limit windowMs bucket) k' = bucket k'"
  by (simp add: rateLimitOk_def Let_def split: option.splits)

lemma rateLimitOk_local:
  "b1 key = b2 key \<Longrightarrow>
     fst (rateLimitOk now key limit windowMs b1) = fst (rateLimitOk now key limit windowMs b2)
   \<and> snd (rateLimitOk now key limit windowMs b1) key = snd (rateLimitOk now key limit windowMs b2) key"
  by (simp add: rateLimitOk_def Let_def split: option.splits)

text \<open>Two maps that agree away from \<open>k\<close> answer every run of calls for other keys alike.\<close>

lemma rl_calls_agree:
  assumes "\<forall>k'. k' \<noteq> k \<longrightarrow> b1 k' = b2 k'" and "\<forall>c \<in> set cs. fst (snd c) \<noteq> k"
  shows "fst (rl_calls cs b1) = fst (rl_calls cs b2)
         \<and> (\<forall>k'. k' \<noteq> k \<longrightarrow> snd (rl_calls cs b1) k' = snd (rl_calls cs b2) k')"
  using assms
proof (induction cs arbitrary: b1 b2)
  case Nil
  then show ?case by simp
next
  case (Cons c cs)
  obtain now key limit windowMs where c: "c = (now, key, limit, windowMs)"
    by (cases c) auto
  have key: "key \<noteq> k" and rest: "\<forall>c \<in> set cs. fst (snd c) \<noteq> k"
    using Cons.prems(2) c by simp_all
  let ?s1 = "snd (rateLimitOk now key limit windowMs b1)"
  let ?s2 = "snd (rateLimitOk now key limit windowMs b2)"
  have same: "b1 key = b2 key" using Cons.prems(1) key by simp
  have head: "fst (rateLimitOk now key limit windowMs b1) = fst (rateLimitOk now key limit windowMs b2)"
    using rateLimitOk_local [of b1 key b2 now limit windowMs] same by simp
  have "\<forall>k'. k' \<noteq> k \<longrightarrow> ?s1 k' = ?s2 k'"
  proof (intro allI impI)
    fix k' assume k': "k' \<noteq> k"
    show "?s1 k' = ?s2 k'"
    proof (cases "k' = key")
      case True
      then show ?thesis using rateLimitOk_local [of b1 key b2 now limit windowMs] same by simp
    next
      case False
      then show ?thesis using Cons.prems(1) k' by (simp add: rateLimitOk_frame)
    qed
  qed
  from Cons.IH [OF this rest] head show ?case
    by (simp add: c rl_calls_Cons del: rl_calls.simps)
qed

text \<open>
  C6. A call for key \<open>k\<close> leaves the entry of every other key \<open>k'\<close> as it was; its answer
  and the entry it stores for \<open>k\<close> are the same on every map that holds the same entry for
  \<open>k\<close>, so it reads no other entry; and every later run of calls for keys other than \<open>k\<close>
  is answered as if the call for \<open>k\<close> had not been made.
\<close>

theorem rateLimitOk_keys_independent:
  assumes "k' \<noteq> k"
  shows "snd (rateLimitOk now k L w bucket) k' = bucket k'
         \<and> (\<forall>b2. b2 k = bucket k \<longrightarrow>
               fst (rateLimitOk now k L w b2) = fst (rateLimitOk now k L w bucket)
             \<and> snd (rateLimitOk now k L w b2) k = snd (rateLimitOk now k L w bucket) k)
         \<and> (\<forall>cs. (\<forall>c \<in> set cs. fst (snd c) \<noteq> k) \<longrightarrow>
               fst (rl_calls cs (snd (rateLimitOk now k L w bucket))) = fst (rl_calls cs bucket))"
proof (intro conjI allI impI)
  show "snd (rateLimitOk now k L w bucket) k' = bucket k'"
    using assms by (rule rateLimitOk_frame)
next
  fix b2 :: bucket_map assume "b2 k = bucket k"
  then show "fst (rateLimitOk now k L w b2) = fst (rateLimitOk now k L w bucket)"
    and "snd (rateLimitOk now k L w b2) k = snd (rateLimitOk now k L w bucket) k"
    using rateLimitOk_local [of b2 k bucket now L w] by simp_all
next
  fix cs :: "rl_call list" assume cs: "\<forall>c \<in> set cs. fst (snd c) \<noteq> k"
  have "\<forall>j. j \<noteq> k \<longrightarrow> snd (rateLimitOk now k L w bucket) j = bucket j"
    by (simp add: rateLimitOk_frame)
  from rl_calls_agree [OF this cs]
  show "fst (rl_calls cs (snd (rateLimitOk now k L w bucket))) = fst (rl_calls cs bucket)"
    by simp
qed

theorem rateLimitOk_keys_independent_witness:
  "''10.0.0.2'' \<noteq> ''10.0.0.1''
   \<and> snd (rateLimitOk 50 ''10.0.0.1'' 2 100
        [''10.0.0.1'' \<mapsto> \<lparr>count = 1, bucket_entry.resetAt = 90\<rparr>,
         ''10.0.0.2'' \<mapsto> \<lparr>count = 1, bucket_entry.resetAt = 90\<rparr>]) ''10.0.0.2''
       = Some \<lparr>count = 1, bucket_entry.resetAt = 90\<rparr>
   \<and> fst (rl_calls [(60, ''10.0.0.2'', 2, 100), (61, ''10.0.0.2'', 2, 100)]
        (snd (rateLimitOk 50 ''10.0.0.1'' 2 100
          [''10.0.0.1'' \<mapsto> \<lparr>count = 1, bucket_entry.resetAt = 90\<rparr>,
           ''10.0.0.2'' \<mapsto> \<lparr>count = 1, bucket_entry.resetAt = 90\<rparr>])))
       = [\<lparr>ok = True, remaining = 0\<rparr>, \<lparr>ok = False, remaining = 0\<rparr>]"
proof -
  let ?b = "[''10.0.0.1'' \<mapsto> \<lparr>count = 1, bucket_entry.resetAt = 90\<rparr>,
             ''10.0.0.2'' \<mapsto> \<lparr>count = (1::int), bucket_entry.resetAt = 90\<rparr>]"
  let ?cs = "[(60, ''10.0.0.2'', 2, 100), (61::int, ''10.0.0.2'', 2::int, 100::int)]"
  have ne: "''10.0.0.2'' \<noteq> ''10.0.0.1''" by simp
  have cs: "\<forall>c \<in> set ?cs. fst (snd c) \<noteq> ''10.0.0.1''" by simp
  have run: "fst (rl_calls ?cs ?b) = [\<lparr>ok = True, remaining = 0\<rparr>, \<lparr>ok = False, remaining = 0\<rparr>]"
    by (simp add: rateLimitOk_def)
  let ?after = "snd (rateLimitOk 50 ''10.0.0.1'' 2 100 ?b)"
  note ind = rateLimitOk_keys_independent [OF ne, of 50 2 100 ?b]
  from ind have kept: "?after ''10.0.0.2'' = ?b ''10.0.0.2''"
    by (rule conjunct1)
  note ind [THEN conjunct2, THEN conjunct2, THEN spec, of ?cs, THEN mp, OF cs]
  then have "fst (rl_calls ?cs ?after) = fst (rl_calls ?cs ?b)" .
  with run have "fst (rl_calls ?cs ?after) = [\<lparr>ok = True, remaining = 0\<rparr>, \<lparr>ok = False, remaining = 0\<rparr>]"
    by (simp only:)
  moreover have "?b ''10.0.0.2'' = Some \<lparr>count = 1, bucket_entry.resetAt = 90\<rparr>"
    by simp
  ultimately show ?thesis using ne kept by (simp only: simp_thms)
qed

text \<open>
  C10. The call that opens a window (no entry for the key, or an expired one) is allowed
  whatever the limit: it returns \<open>remaining = limit - 1\<close>, negative when
  \<open>limit \<le> 0\<close>. The limit is first compared with the count on the next call: with a
  limit of at most 1, a second call inside the window is denied and changes nothing.
\<close>

theorem rateLimitOk_first_call_any_limit:
  assumes "bucket key = None \<or> (\<exists>cur. bucket key = Some cur \<and> now > bucket_entry.resetAt cur)"
  shows "fst (rateLimitOk now key limit windowMs bucket) = \<lparr>ok = True, remaining = limit - 1\<rparr>
         \<and> (limit \<le> 0 \<longrightarrow> remaining (fst (rateLimitOk now key limit windowMs bucket)) < 0)
         \<and> (\<forall>now2. limit \<le> 1 \<and> now2 \<le> now + windowMs \<longrightarrow>
               rateLimitOk now2 key limit windowMs (snd (rateLimitOk now key limit windowMs bucket))
                 = (\<lparr>ok = False, remaining = 0\<rparr>, snd (rateLimitOk now key limit windowMs bucket)))"
  using assms by (auto simp add: rateLimitOk_def)

theorem rateLimitOk_first_call_any_limit_witness:
  "(Map.empty :: bucket_map) ''10.0.0.1'' = None
   \<and> fst (rateLimitOk 1000 ''10.0.0.1'' 0 600000 Map.empty) = \<lparr>ok = True, remaining = - 1\<rparr>
   \<and> fst (rateLimitOk 1000 ''10.0.0.1'' 0 600000 (snd (rateLimitOk 1000 ''10.0.0.1'' 0 600000 Map.empty)))
       = \<lparr>ok = False, remaining = 0\<rparr>"
  using rateLimitOk_first_call_any_limit [of Map.empty "''10.0.0.1''" 1000 0 600000]
  by simp


section \<open>Properties of the opener rotator\<close>

lemma retry_loop_None:
  "retry_loop i bank rnd pos its = (None, p) \<Longrightarrow>
     p = pos + (12 - i) \<and> (\<forall>j < 12 - i. bank_at bank (rnd (pos + j)) \<in> set its)"
proof (induction i bank rnd pos its rule: retry_loop.induct)
  case (1 i bank rnd pos its)
  show ?case
  proof (cases "i < 12")
    case False
    with "1.prems" show ?thesis by (simp add: retry_loop.simps [of i])
  next
    case True
    from True "1.prems" have hit: "bank_at bank (rnd pos) \<in> set its"
      and rest: "retry_loop (Suc i) bank rnd (Suc pos) its = (None, p)"
      by (auto simp add: retry_loop.simps [of i] Let_def split: if_splits)
    from "1.IH" [OF True refl _ rest] hit
    have p: "p = Suc pos + (12 - Suc i)"
      and tl: "\<forall>j < 12 - Suc i. bank_at bank (rnd (Suc pos + j)) \<in> set its"
      by simp_all
    have "bank_at bank (rnd (pos + j)) \<in> set its" if "j < 12 - i" for j
    proof (cases j)
      case 0
      then show ?thesis using hit by simp
    next
      case (Suc j')
      with that have "j' < 12 - Suc i" by simp
      with tl Suc show ?thesis by simp
    qed
    with p True show ?thesis by simp
  qed
qed

lemma retry_loop_Some:
  "retry_loop i bank rnd pos its = (Some c, p) \<Longrightarrow>
     c \<notin> set its \<and> (\<exists>j. i + j < 12 \<and> p = Suc (pos + j) \<and> c = bank_at bank (rnd (pos + j)))"
proof (induction i bank rnd pos its rule: retry_loop.induct)
  case (1 i bank rnd pos its)
  show ?case
  proof (cases "i < 12")
    case False
    with "1.prems" show ?thesis by (simp add: retry_loop.simps [of i])
  next
    case True
    show ?thesis
    proof (cases "bank_at bank (rnd pos) \<in> set its")
      case False
      with True "1.prems" have "c = bank_at bank (rnd pos)" and "p = Suc pos"
        by (simp_all add: retry_loop.simps [of i] Let_def)
      with False True show ?thesis by (auto intro: exI [of _ 0])
    next
      case hit: True
      with True "1.prems" have rest: "retry_loop (Suc i) bank rnd (Suc pos) its = (Some c, p)"
        by (simp add: retry_loop.simps [of i] Let_def)
      from "1.IH" [OF True refl _ rest] hit
      obtain j where "c \<notin> set its" "Suc i + j < 12" "p = Suc (Suc pos + j)"
        "c = bank_at bank (rnd (Suc pos + j))" by auto
      then show ?thesis by (auto intro: exI [of _ "Suc j"])
    qed
  qed
qed

lemma retry_loop_exhausted:
  "(\<forall>j < 12 - i. bank_at bank (rnd (pos + j)) \<in> set its) \<Longrightarrow>
     retry_loop i bank rnd pos its = (None, pos + (12 - i))"
proof (induction i bank rnd pos its rule: retry_loop.induct)
  case (1 i bank rnd pos its)
  show ?case
  proof (cases "i < 12")
    case False
    then show ?thesis by (simp add: retry_loop.simps [of i])
  next
    case True
    then have hit: "bank_at bank (rnd pos) \<in> set its"
      using "1.prems" [rule_format, of 0] by simp
    have "\<forall>j < 12 - Suc i. bank_at bank (rnd (Suc pos + j)) \<in> set its"
    proof (intro allI impI)
      fix j assume "j < 12 - Suc i"
      then have "Suc j < 12 - i" by simp
      from "1.prems" [rule_format, OF this] show "bank_at bank (rnd (Suc pos + j)) \<in> set its"
        by simp
    qed
    from "1.IH" [OF True refl _ this] hit True show ?thesis
      by (simp add: retry_loop.simps [of i] Let_def)
  qed
qed

lemma retry_loop_lucky:
  assumes "j < 12 - i" and "bank_at bank (rnd (pos + j)) \<notin> set its"
  shows "\<exists>c p. retry_loop i bank rnd pos its = (Some c, p)"
proof (cases "retry_loop i bank rnd pos its")
  case (Pair r p)
  show ?thesis
  proof (cases r)
    case None
    with Pair retry_loop_None [of i bank rnd pos its p] assms show ?thesis by auto
  next
    case (Some c)
    with Pair show ?thesis by simp
  qed
qed

lemma slice0_take: "0 \<le> e \<Longrightarrow> slice0 xs e = take (nat e) xs"
  by (simp add: slice0_def)

lemma retry_loop_empty: "retry_loop 0 bank rnd pos [] = (Some (bank_at bank (rnd pos)), Suc pos)"
  by (simp add: retry_loop.simps [of 0])

text \<open>The call that finds no entry, or an expired one: the first draw is accepted.\<close>

lemma pick_fresh:
  assumes "H (ip @ '':'' @ mode_str mode) = None
           \<or> (\<exists>cur. H (ip @ '':'' @ mode_str mode) = Some cur \<and> now > opener_entry.resetAt cur)"
  shows "pickNonRepeatingOpener mode ip bank keepLast now rnd pos H =
           Inr (bank_at bank (rnd pos), Suc pos,
                H(ip @ '':'' @ mode_str mode \<mapsto>
                   \<lparr>items = slice0 [bank_at bank (rnd pos)] keepLast,
                    opener_entry.resetAt = now + 24 * 60 * 60 * 1000\<rparr>))"
  using assms
  by (auto simp add: pickNonRepeatingOpener_def remember_def retry_loop_empty)

text \<open>The call that finds an unexpired entry.\<close>

lemma pick_in_window:
  assumes "H (ip @ '':'' @ mode_str mode) = Some cur" and "now \<le> opener_entry.resetAt cur"
  shows "pickNonRepeatingOpener mode ip bank keepLast now rnd pos H =
           (case retry_loop 0 bank rnd pos (items cur) of
              (Some candidate, pos1) \<Rightarrow>
                Inr (candidate, pos1, remember H (ip @ '':'' @ mode_str mode) cur candidate keepLast)
            | (None, pos1) \<Rightarrow>
                Inr (bank_at bank (rnd pos1), Suc pos1,
                     remember H (ip @ '':'' @ mode_str mode) cur (bank_at bank (rnd pos1)) keepLast))"
  using assms by (simp add: pickNonRepeatingOpener_def Let_def split: prod.split option.split)

text \<open>
  Both cases at once: the call returns, the item it returns is the one it stores in front
  of the list it started from, and it makes between one and thirteen draws.
\<close>

lemma pick_result:
  "\<exists>x pos' st.
     pickNonRepeatingOpener mode ip bank keepLast now rnd pos H =
       Inr (x, pos', H(ip @ '':'' @ mode_str mode \<mapsto> st\<lparr>items := slice0 (x # items st) keepLast\<rparr>))
     \<and> st = (case H (ip @ '':'' @ mode_str mode) of
               None \<Rightarrow> \<lparr>items = [], opener_entry.resetAt = now + 24 * 60 * 60 * 1000\<rparr>
             | Some cur \<Rightarrow> if now > opener_entry.resetAt cur
                 then \<lparr>items = [], opener_entry.resetAt = now + 24 * 60 * 60 * 1000\<rparr> else cur)
     \<and> (\<exists>j < 13. pos' = Suc (pos + j) \<and> x = bank_at bank (rnd (pos + j)))"
proof (cases "H (ip @ '':'' @ mode_str mode) = None
           \<or> (\<exists>cur. H (ip @ '':'' @ mode_str mode) = Some cur \<and> now > opener_entry.resetAt cur)")
  case True
  have "(0::nat) < 13 \<and> Suc pos = Suc (pos + 0) \<and> bank_at bank (rnd pos) = bank_at bank (rnd (pos + 0))"
    by simp
  moreover have "pickNonRepeatingOpener mode ip bank keepLast now rnd pos H =
           Inr (bank_at bank (rnd pos), Suc pos,
                H(ip @ '':'' @ mode_str mode \<mapsto>
                   \<lparr>items = slice0 [bank_at bank (rnd pos)] keepLast,
                    opener_entry.resetAt = now + 24 * 60 * 60 * 1000\<rparr>))"
    using True by (rule pick_fresh)
  ultimately show ?thesis
    using True by (auto simp del: add_0_right One_nat_def)
next
  case False
  then obtain cur where cur: "H (ip @ '':'' @ mode_str mode) = Some cur"
    and live: "now \<le> opener_entry.resetAt cur"
    by (cases "H (ip @ '':'' @ mode_str mode)") auto
  obtain r p where loop: "retry_loop 0 bank rnd pos (items cur) = (r, p)"
    by (cases "retry_loop 0 bank rnd pos (items cur)")
  note unfold = pick_in_window [of H ip mode cur now bank keepLast rnd pos]
  show ?thesis
  proof (cases r)
    case None
    with loop retry_loop_None [of 0 bank rnd pos "items cur" p] have p: "p = pos + 12" by simp
    have "(12::nat) < 13" by simp
    with None loop p cur live show ?thesis
      using unfold by (auto simp add: remember_def)
  next
    case (Some c)
    with loop retry_loop_Some [of 0 bank rnd pos "items cur" c p]
    obtain j where "j < 12" "p = Suc (pos + j)" "c = bank_at bank (rnd (pos + j))" by auto
    then have "j < 13 \<and> p = Suc (pos + j) \<and> c = bank_at bank (rnd (pos + j))" by simp
    with Some loop cur live show ?thesis
      using unfold by (auto simp add: remember_def)
  qed
qed

lemma retry_loop_draws: "snd (retry_loop i bank rnd pos its) \<le> pos + (12 - i)"
proof (cases "retry_loop i bank rnd pos its")
  case (Pair r p)
  show ?thesis
  proof (cases r)
    case None
    with Pair retry_loop_None [of i bank rnd pos its p] show ?thesis by simp
  next
    case (Some c)
    with Pair retry_loop_Some [of i bank rnd pos its c p] show ?thesis by auto
  qed
qed

text \<open>
  C7. For a non-empty bank, with every draw an index of the bank, a call returns: the
  result is never the exception, the opener returned is a member of the bank, and the
  call makes at least one and at most thirteen draws, at most twelve of them in the retry
  loop (whatever list the loop compares against). The functions of the model are total,
  the loop by its termination proof on \<open>12 - i\<close>.
\<close>

theorem pick_returns_bank_member:
  assumes "bank \<noteq> []" and "\<forall>k. rnd k < length bank"
  shows "(\<exists>x pos' H'. pickNonRepeatingOpener mode ip bank keepLast now rnd pos H = Inr (Some x, pos', H')
            \<and> x \<in> set bank \<and> pos < pos' \<and> pos' \<le> pos + 13)
         \<and> snd (retry_loop 0 bank rnd pos its) \<le> pos + 12"
proof
  from pick_result [of mode ip bank keepLast now rnd pos H]
  obtain x pos' H' j where call: "pickNonRepeatingOpener mode ip bank keepLast now rnd pos H = Inr (x, pos', H')"
    and j: "j < 13" "pos' = Suc (pos + j)" "x = bank_at bank (rnd (pos + j))"
    by blast
  from assms(2) have "rnd (pos + j) < length bank" by simp
  then have "x = Some (bank ! rnd (pos + j))" and "bank ! rnd (pos + j) \<in> set bank"
    using j(3) by (simp_all add: bank_at_def)
  with call j(1,2)
  show "\<exists>x pos' H'. pickNonRepeatingOpener mode ip bank keepLast now rnd pos H = Inr (Some x, pos', H')
            \<and> x \<in> set bank \<and> pos < pos' \<and> pos' \<le> pos + 13"
    by auto
  show "snd (retry_loop 0 bank rnd pos its) \<le> pos + 12"
    using retry_loop_draws [of 0 bank rnd pos its] by simp
qed

theorem pick_returns_bank_member_witness:
  "[''Begin.'', ''Breathe.''] \<noteq> []
   \<and> (\<exists>x pos' H'. pickNonRepeatingOpener morning ''10.0.0.1'' [''Begin.'', ''Breathe.''] 20 1000 (\<lambda>k. 1) 0
                      [''10.0.0.1:morning'' \<mapsto> \<lparr>items = [Some ''Breathe.''], opener_entry.resetAt = 5000\<rparr>]
                    = Inr (Some x, pos', H')
            \<and> x \<in> set [''Begin.'', ''Breathe.''] \<and> 0 < pos' \<and> pos' \<le> 0 + 13)"
  using pick_returns_bank_member [of "[''Begin.'', ''Breathe.'']" "\<lambda>k. 1" morning "''10.0.0.1''" 20 1000 0
      "[''10.0.0.1:morning'' \<mapsto> \<lparr>items = [Some ''Breathe.''], opener_entry.resetAt = 5000\<rparr>]"]
  by simp

text \<open>
  C8. With a cap \<open>keepLast \<ge> 0\<close>, if every stored recency list has at most \<open>keepLast\<close>
  entries before a call, so has every stored list after it; and the list stored for the
  key of the call is the returned opener in front of the list the call started from (the
  empty list when the entry was absent or expired), cut to its first \<open>keepLast\<close>
  entries, which drops the oldest.
\<close>

theorem pick_history_bounded:
  assumes "0 \<le> keepLast" and "\<forall>k e. H k = Some e \<longrightarrow> int (length (items e)) \<le> keepLast"
  shows "\<exists>x pos' H'. pickNonRepeatingOpener mode ip bank keepLast now rnd pos H = Inr (x, pos', H')
           \<and> (\<forall>k e. H' k = Some e \<longrightarrow> int (length (items e)) \<le> keepLast)
           \<and> (\<exists>st. H' (ip @ '':'' @ mode_str mode) = Some st
                 \<and> items st = take (nat keepLast)
                     (x # (case H (ip @ '':'' @ mode_str mode) of
                             None \<Rightarrow> []
                           | Some cur \<Rightarrow> if now > opener_entry.resetAt cur then [] else items cur)))"
proof -
  from pick_result [of mode ip bank keepLast now rnd pos H]
  obtain x pos' st where
    call: "pickNonRepeatingOpener mode ip bank keepLast now rnd pos H =
       Inr (x, pos', H(ip @ '':'' @ mode_str mode \<mapsto> st\<lparr>items := slice0 (x # items st) keepLast\<rparr>))"
    and st: "st = (case H (ip @ '':'' @ mode_str mode) of
               None \<Rightarrow> \<lparr>items = [], opener_entry.resetAt = now + 24 * 60 * 60 * 1000\<rparr>
             | Some cur \<Rightarrow> if now > opener_entry.resetAt cur
                 then \<lparr>items = [], opener_entry.resetAt = now + 24 * 60 * 60 * 1000\<rparr> else cur)"
    by blast
  let ?H' = "H(ip @ '':'' @ mode_str mode \<mapsto> st\<lparr>items := slice0 (x # items st) keepLast\<rparr>)"
  have cut: "slice0 (x # items st) keepLast = take (nat keepLast) (x # items st)"
    using assms(1) by (rule slice0_take)
  have its: "items st = (case H (ip @ '':'' @ mode_str mode) of
                             None \<Rightarrow> []
                           | Some cur \<Rightarrow> if now > opener_entry.resetAt cur then [] else items cur)"
    unfolding st by (simp split: option.split)
  have bound: "\<forall>k e. ?H' k = Some e \<longrightarrow> int (length (items e)) \<le> keepLast"
    using assms by (auto simp add: cut simp del: take_Cons')
  have stored: "\<exists>s. ?H' (ip @ '':'' @ mode_str mode) = Some s
                 \<and> items s = take (nat keepLast)
                     (x # (case H (ip @ '':'' @ mode_str mode) of
                             None \<Rightarrow> []
                           | Some cur \<Rightarrow> if now > opener_entry.resetAt cur then [] else items cur))"
    unfolding its [symmetric] by (simp add: cut)
  from call bound stored show ?thesis by blast
qed

theorem pick_history_bounded_witness:
  "(0::int) \<le> 2
   \<and> (\<exists>x pos' H'. pickNonRepeatingOpener morning ''10.0.0.1'' [''A'', ''B'', ''C''] 2 1000 (\<lambda>k. 2) 0
                      [''10.0.0.1:morning'' \<mapsto> \<lparr>items = [Some ''B'', Some ''A''], opener_entry.resetAt = 5000\<rparr>]
                    = Inr (x, pos', H')
           \<and> (\<forall>k e. H' k = Some e \<longrightarrow> int (length (items e)) \<le> 2)
           \<and> (\<exists>st. H' ''10.0.0.1:morning'' = Some st \<and> items st = [x, Some ''B'']))"
  using pick_history_bounded [of 2
      "[''10.0.0.1:morning'' \<mapsto> \<lparr>items = [Some ''B'', Some ''A''], opener_entry.resetAt = 5000\<rparr>]"
      morning "''10.0.0.1''" "[''A'', ''B'', ''C'']" 1000 "\<lambda>k. 2" 0]
  by simp

text \<open>
  C9. A call made after the stored \<open>resetAt\<close> of its key has passed behaves as the same
  call on the map in which the entry has been replaced by an empty recency list with
  \<open>resetAt\<close> 24 hours after \<open>now\<close>: the first draw is accepted whatever the expired list
  held, and is stored alone. In the witness the expired list holds the opener that the
  first draw selects, and it is served again.
\<close>

theorem pick_after_expiry:
  assumes "H (ip @ '':'' @ mode_str mode) = Some cur" and "now > opener_entry.resetAt cur"
  shows "pickNonRepeatingOpener mode ip bank keepLast now rnd pos H
           = pickNonRepeatingOpener mode ip bank keepLast now rnd pos
               (H(ip @ '':'' @ mode_str mode \<mapsto>
                    \<lparr>items = [], opener_entry.resetAt = now + 24 * 60 * 60 * 1000\<rparr>))
         \<and> pickNonRepeatingOpener mode ip bank keepLast now rnd pos H
           = Inr (bank_at bank (rnd pos), Suc pos,
                  H(ip @ '':'' @ mode_str mode \<mapsto>
                      \<lparr>items = slice0 [bank_at bank (rnd pos)] keepLast,
                       opener_entry.resetAt = now + 24 * 60 * 60 * 1000\<rparr>))"
proof -
  let ?key = "ip @ '':'' @ mode_str mode"
  let ?cleared = "\<lparr>items = [], opener_entry.resetAt = now + 24 * 60 * 60 * 1000\<rparr>"
  have expired: "pickNonRepeatingOpener mode ip bank keepLast now rnd pos H
           = Inr (bank_at bank (rnd pos), Suc pos,
                  H(?key \<mapsto> \<lparr>items = slice0 [bank_at bank (rnd pos)] keepLast,
                       opener_entry.resetAt = now + 24 * 60 * 60 * 1000\<rparr>))"
    using assms by (intro pick_fresh) simp
  have "(H(?key \<mapsto> ?cleared)) ?key = Some ?cleared" and "now \<le> opener_entry.resetAt ?cleared"
    by simp_all
  then have "pickNonRepeatingOpener mode ip bank keepLast now rnd pos (H(?key \<mapsto> ?cleared))
           = Inr (bank_at bank (rnd pos), Suc pos,
                  H(?key \<mapsto> \<lparr>items = slice0 [bank_at bank (rnd pos)] keepLast,
                       opener_entry.resetAt = now + 24 * 60 * 60 * 1000\<rparr>))"
    using pick_in_window [of "H(?key \<mapsto> ?cleared)" ip mode ?cleared now bank keepLast rnd pos]
    by (simp add: retry_loop_empty remember_def)
  with expired show ?thesis by simp
qed

theorem pick_after_expiry_witness:
  "(86400000::int) > opener_entry.resetAt \<lparr>items = [Some ''A''], opener_entry.resetAt = 86399999\<rparr>
   \<and> pickNonRepeatingOpener morning ''10.0.0.1'' [''A'', ''B''] 20 86400000 (\<lambda>k. 0) 0
        [''10.0.0.1:morning'' \<mapsto> \<lparr>items = [Some ''A''], opener_entry.resetAt = 86399999\<rparr>]
      = Inr (Some ''A'', Suc 0,
             [''10.0.0.1:morning'' \<mapsto> \<lparr>items = [Some ''A''], opener_entry.resetAt = 172800000\<rparr>])"
  using pick_after_expiry
    [of "[''10.0.0.1:morning'' \<mapsto> \<lparr>items = [Some ''A''], opener_entry.resetAt = 86399999\<rparr>]"
      "''10.0.0.1''" morning "\<lparr>items = [Some ''A''], opener_entry.resetAt = 86399999\<rparr>"
      86400000 "[''A'', ''B'']" 20 "\<lambda>k. 0" 0, THEN conjunct2]
  by (simp add: bank_at_def slice0_def)

text \<open>
  C2, as the code has it. When all twelve retry draws select openers of the recency list,
  the call makes a thirteenth draw and accepts it without a test: the opener returned and
  stored is the thirteenth draw, not the candidate of the twelfth.
\<close>

theorem pick_fallback_is_thirteenth_draw:
  assumes "H (ip @ '':'' @ mode_str mode) = Some cur" and "now \<le> opener_entry.resetAt cur"
    and "\<forall>j < 12. bank_at bank (rnd (pos + j)) \<in> set (items cur)"
  shows "pickNonRepeatingOpener mode ip bank keepLast now rnd pos H
           = Inr (bank_at bank (rnd (pos + 12)), pos + 13,
                  H(ip @ '':'' @ mode_str mode \<mapsto>
                      cur\<lparr>items := slice0 (bank_at bank (rnd (pos + 12)) # items cur) keepLast\<rparr>))"
proof -
  have "retry_loop 0 bank rnd pos (items cur) = (None, pos + (12 - 0))"
    using assms(3) by (intro retry_loop_exhausted) simp
  then show ?thesis
    using pick_in_window [of H ip mode cur now bank keepLast rnd pos] assms(1,2)
    by (simp add: remember_def)
qed

theorem pick_fallback_is_thirteenth_draw_witness:
  "pickNonRepeatingOpener morning ''10.0.0.1'' [''A'', ''B''] 20 1000 (\<lambda>k. if k < 12 then 0 else 1) 0
        [''10.0.0.1:morning'' \<mapsto> \<lparr>items = [Some ''A''], opener_entry.resetAt = 5000\<rparr>]
      = Inr (Some ''B'', 13,
             [''10.0.0.1:morning'' \<mapsto> \<lparr>items = [Some ''B'', Some ''A''], opener_entry.resetAt = 5000\<rparr>])"
  using pick_fallback_is_thirteenth_draw
    [of "[''10.0.0.1:morning'' \<mapsto> \<lparr>items = [Some ''A''], opener_entry.resetAt = 5000\<rparr>]"
      "''10.0.0.1''" morning "\<lparr>items = [Some ''A''], opener_entry.resetAt = 5000\<rparr>"
      1000 "[''A'', ''B'']" "\<lambda>k. if k < 12 then 0 else 1" 0 20]
  by (simp add: bank_at_def slice0_def)

text \<open>
  C2 as stated fails. Bank \<open>[A, B]\<close>, recency list \<open>[A]\<close>, draws \<open>0\<close> twelve times and
  then \<open>1\<close>: the loop falls through, the candidate of the last retry is \<open>A\<close>, and the
  call returns \<open>B\<close>.
\<close>

theorem pick_returns_last_retry_counterexample:
  "retry_loop 0 [''A'', ''B''] (\<lambda>k. if k < 12 then 0 else 1) 0 [Some ''A''] = (None, 12)
   \<and> bank_at [''A'', ''B''] ((\<lambda>k. if k < 12 then 0 else 1) (11::nat)) = Some ''A''
   \<and> pickNonRepeatingOpener morning ''10.0.0.1'' [''A'', ''B''] 20 1000 (\<lambda>k. if k < 12 then 0 else 1) 0
        [''10.0.0.1:morning'' \<mapsto> \<lparr>items = [Some ''A''], opener_entry.resetAt = 5000\<rparr>]
      = Inr (Some ''B'', 13,
             [''10.0.0.1:morning'' \<mapsto> \<lparr>items = [Some ''B'', Some ''A''], opener_entry.resetAt = 5000\<rparr>])"
proof -
  let ?rnd = "\<lambda>k::nat. if k < 12 then 0 else (1::nat)"
  let ?H = "[''10.0.0.1:morning'' \<mapsto> \<lparr>items = [Some ''A''], opener_entry.resetAt = 5000\<rparr>]"
  have hits: "\<forall>j < 12 - 0. bank_at [''A'', ''B''] (?rnd (0 + j)) \<in> set [Some ''A'']"
    by (simp add: bank_at_def)
  have loop: "retry_loop 0 [''A'', ''B''] ?rnd 0 [Some ''A''] = (None, 0 + (12 - 0))"
    using hits by (rule retry_loop_exhausted)
  have "?H (''10.0.0.1'' @ '':'' @ mode_str morning)
          = Some \<lparr>items = [Some ''A''], opener_entry.resetAt = 5000\<rparr>"
    and "(1000::int) \<le> opener_entry.resetAt \<lparr>items = [Some ''A''], opener_entry.resetAt = 5000\<rparr>"
    by simp_all
  then have "pickNonRepeatingOpener morning ''10.0.0.1'' [''A'', ''B''] 20 1000 ?rnd 0 ?H
      = Inr (Some ''B'', 13,
             [''10.0.0.1:morning'' \<mapsto> \<lparr>items = [Some ''B'', Some ''A''], opener_entry.resetAt = 5000\<rparr>])"
    using loop
      pick_in_window [of ?H "''10.0.0.1''" morning "\<lparr>items = [Some ''A''], opener_entry.resetAt = 5000\<rparr>"
        1000 "[''A'', ''B'']" 20 ?rnd 0]
    by (simp add: remember_def bank_at_def slice0_def)
  with loop show ?thesis by (simp add: bank_at_def)
qed

lemma take_append_take: "take n (xs @ take n ys) = take n (xs @ ys)"
  by (simp add: min_def)

text \<open>A call inside the window of an entry: what it stores, and when it avoids the list.\<close>

lemma pick_step_in_window:
  assumes "0 \<le> keepLast"
    and "H (ip @ '':'' @ mode_str mode) = Some \<lparr>items = its, opener_entry.resetAt = R\<rparr>"
    and "now \<le> R"
  shows "\<exists>x pos'. pickNonRepeatingOpener mode ip bank keepLast now rnd pos H =
           Inr (x, pos', H(ip @ '':'' @ mode_str mode \<mapsto>
                            \<lparr>items = take (nat keepLast) (x # its), opener_entry.resetAt = R\<rparr>))
         \<and> ((\<exists>j < 12. bank_at bank (rnd (pos + j)) \<notin> set its) \<longrightarrow> x \<notin> set its)"
proof -
  let ?cur = "\<lparr>items = its, opener_entry.resetAt = R\<rparr>"
  note unfold = pick_in_window [of H ip mode ?cur now bank keepLast rnd pos]
  obtain r p where loop: "retry_loop 0 bank rnd pos its = (r, p)"
    by (cases "retry_loop 0 bank rnd pos its")
  show ?thesis
  proof (cases r)
    case None
    with loop retry_loop_None [of 0 bank rnd pos its p]
    have "\<forall>j < 12. bank_at bank (rnd (pos + j)) \<in> set its" by simp
    then show ?thesis
      using unfold assms loop None by (auto simp add: remember_def slice0_take simp del: take_Cons')
  next
    case (Some c)
    with loop retry_loop_Some [of 0 bank rnd pos its c p] have "c \<notin> set its" by simp
    then show ?thesis
      using unfold assms loop Some by (auto simp add: remember_def slice0_take simp del: take_Cons')
  qed
qed

text \<open>
  A run of calls inside the window of an entry: the list stored at the end is the returned
  items, most recent first, in front of the list stored at the start, cut to the cap.
\<close>

lemma pick_calls_in_window:
  assumes "0 \<le> keepLast"
    and "H (ip @ '':'' @ mode_str mode) = Some \<lparr>items = its, opener_entry.resetAt = R\<rparr>"
    and "length its \<le> nat keepLast"
    and "\<forall>t \<in> set ts. t \<le> R"
    and "pick_calls mode ip bank keepLast rnd ts pos H = Inr (xs, pos', H')"
  shows "H' (ip @ '':'' @ mode_str mode)
           = Some \<lparr>items = take (nat keepLast) (rev xs @ its), opener_entry.resetAt = R\<rparr>"
  using assms(2-)
proof (induction ts arbitrary: H its pos xs)
  case Nil
  then show ?case by simp
next
  case (Cons t ts)
  let ?key = "ip @ '':'' @ mode_str mode"
  from Cons.prems(3) have t: "t \<le> R" and ts: "\<forall>t \<in> set ts. t \<le> R" by simp_all
  from pick_step_in_window [of keepLast H ip mode its R t bank rnd pos] assms(1) Cons.prems(1) t
  obtain x p where
    call: "pickNonRepeatingOpener mode ip bank keepLast t rnd pos H =
           Inr (x, p, H(?key \<mapsto> \<lparr>items = take (nat keepLast) (x # its), opener_entry.resetAt = R\<rparr>))"
    by blast
  let ?H1 = "H(?key \<mapsto> \<lparr>items = take (nat keepLast) (x # its), opener_entry.resetAt = R\<rparr>)"
  from Cons.prems(4) call obtain xs' where xs: "xs = x # xs'"
    and rest: "pick_calls mode ip bank keepLast rnd ts p ?H1 = Inr (xs', pos', H')"
    by (auto split: sum.splits prod.splits)
  have stored: "?H1 ?key = Some \<lparr>items = take (nat keepLast) (x # its), opener_entry.resetAt = R\<rparr>"
    by simp
  have short: "length (take (nat keepLast) (x # its)) \<le> nat keepLast" by simp
  from Cons.IH [of ?H1 "take (nat keepLast) (x # its)" p xs'] stored short ts rest
  have "H' ?key = Some \<lparr>items = take (nat keepLast) (rev xs' @ take (nat keepLast) (x # its)),
                        opener_entry.resetAt = R\<rparr>"
    by blast
  then show ?case unfolding xs by (simp only: take_append_take rev.simps append_assoc append.simps)
qed

lemma bank_has_fresh_item:
  assumes "distinct bank" and "length its < length bank"
  shows "\<exists>d < length bank. bank_at bank d \<notin> set its"
proof (rule ccontr)
  assume "\<not> (\<exists>d < length bank. bank_at bank d \<notin> set its)"
  then have "\<forall>d < length bank. Some (bank ! d) \<in> set its"
    by (simp add: bank_at_def)
  then have "Some ` set bank \<subseteq> set its"
    by (auto simp add: in_set_conv_nth)
  then have "card (Some ` set bank) \<le> card (set its)"
    by (intro card_mono) simp_all
  moreover have "card (Some ` set bank) = length bank"
    using assms(1) by (simp add: card_image distinct_card)
  moreover have "card (set its) \<le> length its"
    by (rule card_length)
  ultimately show False using assms(2) by simp
qed

text \<open>
  C3, as the code has it. A run of calls for one key, the first of which opens the
  24-hour window and the others of which fall inside it, leaves as stored list the
  \<open>keepLast\<close> most recently returned openers, most recent first. The next call inside
  the window returns an opener outside that list provided one of its twelve retry draws
  selects an opener outside it; and a duplicate-free bank of more than \<open>keepLast\<close>
  openers always holds such an opener. Nothing is promised when all twelve retry draws
  select openers of the list.
\<close>

theorem pick_avoids_recent_if_a_retry_is_fresh:
  assumes "0 \<le> keepLast"
    and "H (ip @ '':'' @ mode_str mode) = None
         \<or> (\<exists>cur. H (ip @ '':'' @ mode_str mode) = Some cur \<and> t0 > opener_entry.resetAt cur)"
    and "\<forall>t \<in> set ts. t \<le> t0 + 24 * 60 * 60 * 1000"
    and "now \<le> t0 + 24 * 60 * 60 * 1000"
    and "pick_calls mode ip bank keepLast rnd (t0 # ts) pos H = Inr (xs, pos1, H1)"
  shows "H1 (ip @ '':'' @ mode_str mode)
           = Some \<lparr>items = take (nat keepLast) (rev xs), opener_entry.resetAt = t0 + 24 * 60 * 60 * 1000\<rparr>
         \<and> (\<exists>x pos2 H2. pickNonRepeatingOpener mode ip bank keepLast now rnd pos1 H1 = Inr (x, pos2, H2)
               \<and> ((\<exists>j < 12. bank_at bank (rnd (pos1 + j)) \<notin> set (take (nat keepLast) (rev xs)))
                     \<longrightarrow> x \<notin> set (take (nat keepLast) (rev xs))))
         \<and> (distinct bank \<and> keepLast < int (length bank)
               \<longrightarrow> (\<exists>d < length bank. bank_at bank d \<notin> set (take (nat keepLast) (rev xs))))"
proof -
  let ?key = "ip @ '':'' @ mode_str mode"
  let ?R = "t0 + 24 * 60 * 60 * 1000"
  let ?K = "nat keepLast"
  let ?x0 = "bank_at bank (rnd pos)"
  let ?H0 = "H(?key \<mapsto> \<lparr>items = slice0 [?x0] keepLast, opener_entry.resetAt = ?R\<rparr>)"
  have first: "pickNonRepeatingOpener mode ip bank keepLast t0 rnd pos H = Inr (?x0, Suc pos, ?H0)"
    using assms(2) by (rule pick_fresh)
  with assms(5) obtain xs' where xs: "xs = ?x0 # xs'"
    and rest: "pick_calls mode ip bank keepLast rnd ts (Suc pos) ?H0 = Inr (xs', pos1, H1)"
    by (auto split: sum.splits prod.splits)
  have stored0: "?H0 ?key = Some \<lparr>items = take ?K [?x0], opener_entry.resetAt = ?R\<rparr>"
    using assms(1) by (simp add: slice0_take del: take_Cons')
  have short: "length (take ?K [?x0]) \<le> ?K" by simp
  have "H1 ?key = Some \<lparr>items = take ?K (rev xs' @ take ?K [?x0]), opener_entry.resetAt = ?R\<rparr>"
    using assms(1) stored0 short assms(3) rest by (rule pick_calls_in_window)
  then have stored: "H1 ?key = Some \<lparr>items = take ?K (rev xs), opener_entry.resetAt = ?R\<rparr>"
    unfolding xs by (simp only: take_append_take rev.simps)
  from pick_step_in_window [of keepLast H1 ip mode "take ?K (rev xs)" ?R now bank rnd pos1]
    assms(1) stored assms(4)
  have avoid: "\<exists>x pos2 H2. pickNonRepeatingOpener mode ip bank keepLast now rnd pos1 H1 = Inr (x, pos2, H2)
               \<and> ((\<exists>j < 12. bank_at bank (rnd (pos1 + j)) \<notin> set (take ?K (rev xs)))
                     \<longrightarrow> x \<notin> set (take ?K (rev xs)))"
    by blast
  have room: "\<exists>d < length bank. bank_at bank d \<notin> set (take ?K (rev xs))"
    if "distinct bank" and "keepLast < int (length bank)"
  proof -
    have "length (take ?K (rev xs)) < length bank" using that(2) assms(1) by simp
    with that(1) show ?thesis by (rule bank_has_fresh_item)
  qed
  from stored avoid room show ?thesis by blast
qed

theorem pick_avoids_recent_if_a_retry_is_fresh_witness:
  "(0::int) \<le> 2
   \<and> pick_calls morning ''x'' [''A'', ''B'', ''C''] 2 (\<lambda>k. k mod 3) [0, 1] 0 Map.empty
       = Inr ([Some ''A'', Some ''B''], 2,
              [''x:morning'' \<mapsto> \<lparr>items = [Some ''B'', Some ''A''], opener_entry.resetAt = 86400000\<rparr>])
   \<and> bank_at [''A'', ''B'', ''C''] ((2 + 0) mod 3) \<notin> set [Some ''B'', Some ''A'']
   \<and> (\<exists>x pos2 H2. pickNonRepeatingOpener morning ''x'' [''A'', ''B'', ''C''] 2 2 (\<lambda>k. k mod 3) 2
                      [''x:morning'' \<mapsto> \<lparr>items = [Some ''B'', Some ''A''], opener_entry.resetAt = 86400000\<rparr>]
                    = Inr (x, pos2, H2)
           \<and> x \<notin> set [Some ''B'', Some ''A''])"
proof -
  let ?bank = "[''A'', ''B'', ''C'']"
  let ?rnd = "\<lambda>k::nat. k mod 3"
  let ?H1 = "[''x:morning'' \<mapsto> \<lparr>items = [Some ''B'', Some ''A''], opener_entry.resetAt = 86400000\<rparr>]"
  let ?recent = "take (nat 2) (rev [Some ''A'', Some ''B''])"
  have cap: "(0::int) \<le> 2" by simp
  have absent: "(Map.empty :: history_map) (''x'' @ '':'' @ mode_str morning) = None
         \<or> (\<exists>cur. (Map.empty :: history_map) (''x'' @ '':'' @ mode_str morning) = Some cur
                \<and> 0 > opener_entry.resetAt cur)"
    by simp
  have window: "\<forall>t \<in> set [1::int]. t \<le> 0 + 24 * 60 * 60 * 1000" and last: "(2::int) \<le> 0 + 24 * 60 * 60 * 1000"
    by simp_all
  have run: "pick_calls morning ''x'' ?bank 2 ?rnd [0, 1] 0 Map.empty = Inr ([Some ''A'', Some ''B''], 2, ?H1)"
    by (simp add: pickNonRepeatingOpener_def retry_loop.simps [of 0] remember_def bank_at_def slice0_def)
  have recent: "?recent = [Some ''B'', Some ''A'']"
    by (simp add: numeral_2_eq_2)
  have fresh: "bank_at ?bank ((2 + 0) mod 3) \<notin> set [Some ''B'', Some ''A'']"
    by (simp add: bank_at_def)
  then have lucky: "\<exists>j < 12. bank_at ?bank (?rnd (2 + j)) \<notin> set ?recent"
    unfolding recent by (intro exI [of _ 0]) simp
  from pick_avoids_recent_if_a_retry_is_fresh
    [where keepLast = 2 and H = Map.empty and ip = "''x''" and mode = morning and ?t0.0 = 0
       and ts = "[1]" and now = 2 and bank = ?bank and rnd = ?rnd and pos = 0
       and xs = "[Some ''A'', Some ''B'']" and ?pos1.0 = 2 and ?H1.0 = ?H1,
     OF cap absent window last run]
  have "\<exists>x pos2 H2. pickNonRepeatingOpener morning ''x'' ?bank 2 2 ?rnd 2 ?H1 = Inr (x, pos2, H2)
               \<and> ((\<exists>j < 12. bank_at ?bank (?rnd (2 + j)) \<notin> set ?recent) \<longrightarrow> x \<notin> set ?recent)"
    by blast
  with lucky have "\<exists>x pos2 H2. pickNonRepeatingOpener morning ''x'' ?bank 2 2 ?rnd 2 ?H1 = Inr (x, pos2, H2)
               \<and> x \<notin> set ?recent"
    by blast
  then have "\<exists>x pos2 H2. pickNonRepeatingOpener morning ''x'' ?bank 2 2 ?rnd 2 ?H1 = Inr (x, pos2, H2)
               \<and> x \<notin> set [Some ''B'', Some ''A'']"
    unfolding recent .
  with cap run fresh show ?thesis by (intro conjI)
qed

text \<open>
  C3 as stated fails, on the scenario of the specification: bank \<open>[A, B, C]\<close>, cap 2.
  Two calls return \<open>A\<close> and \<open>B\<close> and leave the list \<open>[B, A]\<close>; in the third call every
  draw is \<open>0\<close>, so the twelve retries select \<open>A\<close> and the thirteenth draw returns \<open>A\<close>,
  one of the two most recently returned openers.
\<close>

theorem pick_never_repeats_recent_counterexample:
  "distinct [''A'', ''B'', ''C''] \<and> length [''A'', ''B'', ''C''] \<ge> 2 + 1
   \<and> pick_calls morning ''x'' [''A'', ''B'', ''C''] 2 (\<lambda>k. if k = 1 then 1 else 0) [0, 1] 0 Map.empty
       = Inr ([Some ''A'', Some ''B''], 2,
              [''x:morning'' \<mapsto> \<lparr>items = [Some ''B'', Some ''A''], opener_entry.resetAt = 86400000\<rparr>])
   \<and> pickNonRepeatingOpener morning ''x'' [''A'', ''B'', ''C''] 2 2 (\<lambda>k. if k = 1 then 1 else 0) 2
        [''x:morning'' \<mapsto> \<lparr>items = [Some ''B'', Some ''A''], opener_entry.resetAt = 86400000\<rparr>]
       = Inr (Some ''A'', 15,
              [''x:morning'' \<mapsto> \<lparr>items = [Some ''A'', Some ''B''], opener_entry.resetAt = 86400000\<rparr>])
   \<and> Some ''A'' \<in> set [Some ''B'', Some ''A'']"
proof -
  let ?bank = "[''A'', ''B'', ''C'']"
  let ?rnd = "\<lambda>k::nat. if k = 1 then 1 else (0::nat)"
  let ?H2 = "[''x:morning'' \<mapsto> \<lparr>items = [Some ''B'', Some ''A''], opener_entry.resetAt = 86400000\<rparr>]"
  have run: "pick_calls morning ''x'' ?bank 2 ?rnd [0, 1] 0 Map.empty = Inr ([Some ''A'', Some ''B''], 2, ?H2)"
    by (simp add: pickNonRepeatingOpener_def retry_loop.simps [of 0] remember_def bank_at_def slice0_def)
  have hits: "\<forall>j < 12 - 0. bank_at ?bank (?rnd (2 + j)) \<in> set [Some ''B'', Some ''A'']"
    by (simp add: bank_at_def)
  have loop: "retry_loop 0 ?bank ?rnd 2 [Some ''B'', Some ''A''] = (None, 2 + (12 - 0))"
    using hits by (rule retry_loop_exhausted)
  have third: "pickNonRepeatingOpener morning ''x'' ?bank 2 2 ?rnd 2 ?H2
       = Inr (Some ''A'', 15,
              [''x:morning'' \<mapsto> \<lparr>items = [Some ''A'', Some ''B''], opener_entry.resetAt = 86400000\<rparr>])"
    using loop
      pick_in_window [of ?H2 "''x''" morning "\<lparr>items = [Some ''B'', Some ''A''], opener_entry.resetAt = 86400000\<rparr>"
        2 ?bank 2 ?rnd 2]
    by (simp add: remember_def bank_at_def slice0_def)
  from run third show ?thesis by simp
qed

end
